theory Spec2Isabelle
  imports Main "HOL-Library.Sublist"
begin

section \<open>Text, patterns and substitution\<close>

text \<open>
  A Python \<open>str\<close> is a sequence of Unicode code points; a code point is a natural
  number here. \<open>lit\<close> turns an ASCII literal of the source into that sequence.
\<close>

type_synonym str = "nat list"

definition lit :: "string \<Rightarrow> str" where
  "lit s = map of_char s"

text \<open>
  The class \<open>\s\<close> of a \<open>str\<close> pattern: the code points for which Python's
  \<open>str.isspace\<close> holds.
\<close>

definition is_space :: "nat \<Rightarrow> bool" where
  "is_space c \<longleftrightarrow>
     (9 \<le> c \<and> c \<le> 13) \<or> (28 \<le> c \<and> c \<le> 32) \<or> c = 133 \<or> c = 160 \<or> c = 5760 \<or>
     (8192 \<le> c \<and> c \<le> 8202) \<or> c = 8232 \<or> c = 8233 \<or> c = 8239 \<or> c = 8287 \<or>
     c = 12288"

text \<open>
  Both patterns of \<open>fix_file\<close> are concatenations of escaped literal characters and
  \<open>\s+\<close>; a pattern is the list of these items.
\<close>

datatype pat = Lit str | Spaces1

text \<open>
  \<open>match_here p s\<close> matches \<open>p\<close> at the start of \<open>s\<close> as the backtracking engine
  of \<open>re\<close> does and returns the text after the match. \<open>\s+\<close> is greedy: it takes
  one more whitespace character as long as the rest of the pattern then still matches, and
  gives characters back otherwise.
\<close>

fun match_here :: "pat list \<Rightarrow> str \<Rightarrow> str option" where
  "match_here [] s = Some s"
| "match_here (Lit l # ps) s =
     (if prefix l s then match_here ps (drop (length l) s) else None)"
| "match_here (Spaces1 # ps) [] = None"
| "match_here (Spaces1 # ps) (c # cs) =
     (if is_space c
      then (case match_here (Spaces1 # ps) cs of
              Some rest \<Rightarrow> Some rest
            | None \<Rightarrow> match_here ps cs)
      else None)"

text \<open>
  \<open>re.sub(pattern, repl, string)\<close> for a replacement without backslashes (both
  replacements of \<open>fix_file\<close> have none, so the template is inserted as it is): the text
  is scanned from the left; where the pattern matches, the replacement is emitted and the
  scan goes on after the match; elsewhere the character is copied. An empty match is
  replaced and the scan moves on by one character.
\<close>

function re_sub :: "pat list \<Rightarrow> str \<Rightarrow> str \<Rightarrow> str" where
  "re_sub p r [] = (if match_here p [] = None then [] else r)"
| "re_sub p r (c # cs) =
     (case match_here p (c # cs) of
        None \<Rightarrow> c # re_sub p r cs
      | Some rest \<Rightarrow>
          if length rest < length (c # cs) then r @ re_sub p r rest
          else r @ c # re_sub p r cs)"
  by pat_completeness auto
termination
  by (relation "measure (\<lambda>(p, r, s). length s)") auto

text \<open>\<open>re.search(p, s) is not None\<close>: the pattern matches somewhere in the text.\<close>

fun matches_anywhere :: "pat list \<Rightarrow> str \<Rightarrow> bool" where
  "matches_anywhere p [] = (match_here p [] \<noteq> None)"
| "matches_anywhere p (c # cs) = (match_here p (c # cs) \<noteq> None \<or> matches_anywhere p cs)"

text \<open>Python's \<open>l in s\<close> on strings.\<close>

fun contains :: "str \<Rightarrow> str \<Rightarrow> bool" where
  "contains l [] = (l = [])"
| "contains l (c # cs) = (prefix l (c # cs) \<or> contains l cs)"

text \<open>An occurrence of \<open>l\<close> in the text \<open>p @ s\<close> that starts inside \<open>p\<close>.\<close>

fun starts_within :: "str \<Rightarrow> str \<Rightarrow> str \<Rightarrow> bool" where
  "starts_within l [] s = False"
| "starts_within l (c # p) s = (prefix l (c # p @ s) \<or> starts_within l p s)"

section \<open>The two rewrite rules of \<open>fix_file\<close>\<close>

definition token_stmt :: str where
  "token_stmt = lit ''const token = localStorage.getItem('auth_token');''"

definition pattern1 :: "pat list" where
  "pattern1 =
     [Lit (lit ''const token = localStorage.getItem('auth_token');''), Spaces1,
      Lit (lit ''if (!token) {''), Spaces1,
      Lit (lit ''window.location.href = '/';''), Spaces1,
      Lit (lit ''return;''), Spaces1,
      Lit (lit ''}'')]"

definition replacement1 :: str where
  "replacement1 = lit
''// Get Supabase session token\<newline>    const { data: { session } } = await window.supabase.auth.getSession();\<newline>    if (!session) {\<newline>        window.location.href = '/index.html';\<newline>        return;\<newline>    }\<newline>    const token = session.access_token;''"

definition pattern2 :: "pat list" where
  "pattern2 = [Lit (lit ''const token = localStorage.getItem('auth_token');'')]"

definition replacement2 :: str where
  "replacement2 = lit
''const { data: { session } } = await window.supabase.auth.getSession();\<newline>    const token = session?.access_token;''"

definition rule_A :: "str \<Rightarrow> str" where
  "rule_A content = re_sub pattern1 replacement1 content"

definition rule_B :: "str \<Rightarrow> str" where
  "rule_B content = re_sub pattern2 replacement2 content"

text \<open>The text transformation of \<open>fix_file\<close>: pattern 1 first, then pattern 2.\<close>

definition rewrite :: "str \<Rightarrow> str" where
  "rewrite content = rule_B (rule_A content)"

section \<open>Files, console and the driver\<close>

text \<open>
  A file holds the text that a text-mode read with UTF-8 decoding returns (\<open>None\<close> when
  its bytes do not decode) and the permissions that let \<open>open\<close> succeed. Text mode
  translates line endings when it reads, so this text has no carriage return, and the text
  that \<open>fix_file\<close> writes has none either: a read after a write returns what was written.
  A failing \<open>open\<close> or \<open>read\<close> raises; the exception is a value of type \<open>error\<close>.
  Different paths name different files. The world is the file system by path, the lines printed so far, and the paths opened for
  writing so far, in order.
\<close>

datatype error = IOFailure | DecodeFailure

record file_node =
  fdata :: "str option"
  readable :: bool
  writable :: bool

record world =
  files :: "str \<rightharpoonup> file_node"
  console :: "str list"
  opened_w :: "str list"

text \<open>\<open>print(line)\<close> on a standard output that takes every character.\<close>

definition print :: "world \<Rightarrow> str \<Rightarrow> world" where
  "print w line = w\<lparr>console := console w @ [line]\<rparr>"

definition path_exists :: "world \<Rightarrow> str \<Rightarrow> bool" where
  "path_exists w p \<longleftrightarrow> files w p \<noteq> None"

text \<open>\<open>open(p, 'r', encoding='utf-8')\<close> followed by \<open>read()\<close>.\<close>

definition read_file :: "world \<Rightarrow> str \<Rightarrow> error + str" where
  "read_file w p =
     (case files w p of
        None \<Rightarrow> Inl IOFailure
      | Some f \<Rightarrow>
          if \<not> readable f then Inl IOFailure
          else (case fdata f of None \<Rightarrow> Inl DecodeFailure | Some c \<Rightarrow> Inr c))"

text \<open>
  \<open>open(p, 'w', encoding='utf-8')\<close> followed by \<open>write(c)\<close>: the whole content is
  replaced; a path with no file gets a new one.
\<close>

definition write_file :: "world \<Rightarrow> str \<Rightarrow> str \<Rightarrow> (error + unit) \<times> world" where
  "write_file w p c =
     (case files w p of
        None \<Rightarrow>
          (Inr (), w\<lparr>files := (files w)(p \<mapsto> \<lparr>fdata = Some c, readable = True, writable = True\<rparr>),
                     opened_w := opened_w w @ [p]\<rparr>)
      | Some f \<Rightarrow>
          if writable f
          then (Inr (), w\<lparr>files := (files w)(p \<mapsto> f\<lparr>fdata := Some c\<rparr>),
                          opened_w := opened_w w @ [p]\<rparr>)
          else (Inl IOFailure, w))"

text \<open>\<open>os.path.join\<close> of two components, on POSIX.\<close>

definition path_join :: "str \<Rightarrow> str \<Rightarrow> str" where
  "path_join a b =
     (if prefix (lit ''/'') b then b
      else if a = [] \<or> suffix (lit ''/'') a then a @ b
      else a @ lit ''/'' @ b)"

text \<open>The decimal digits of a count, as an f-string renders it.\<close>

fun show_nat :: "nat \<Rightarrow> str" where
  "show_nat n = (if n < 10 then [48 + n] else show_nat (n div 10) @ [48 + n mod 10])"

definition fixed_msg :: "str \<Rightarrow> str" where
  "fixed_msg filepath = 10003 # lit '' Fixed '' @ filepath"

definition no_changes_msg :: "str \<Rightarrow> str" where
  "no_changes_msg filepath = lit ''- No changes needed in '' @ filepath"

definition not_found_msg :: "str \<Rightarrow> str" where
  "not_found_msg filepath = 10007 # lit '' File not found: '' @ filepath"

definition summary_msg :: "nat \<Rightarrow> str" where
  "summary_msg fixed_count = lit ''\<newline>Fixed '' @ show_nat fixed_count @ lit '' files''"

definition JS_DIR :: str where
  "JS_DIR = lit ''frontend/assets/js''"

definition files_to_fix :: "str list" where
  "files_to_fix =
     [lit ''billings.js'', lit ''chatbot-ai.js'', lit ''device-settings.js'',
      lit ''flow-builder.js'', lit ''flow-manager.js'', lit ''packages.js'',
      lit ''profile.js'', lit ''set-stage.js'', lit ''whatsapp-bot.js'']"

text \<open>
  \<open>fix_file\<close>: an exception of the read or of the write leaves the function at once, with
  the world as it is then.
\<close>

definition fix_file :: "world \<Rightarrow> str \<Rightarrow> (error + bool) \<times> world" where
  "fix_file w filepath =
     (case read_file w filepath of
        Inl e \<Rightarrow> (Inl e, w)
      | Inr original_content \<Rightarrow>
          let content = re_sub pattern1 replacement1 original_content;
              content = re_sub pattern2 replacement2 content
          in if content \<noteq> original_content
             then (case write_file w filepath content of
                     (Inl e, w') \<Rightarrow> (Inl e, w')
                   | (Inr u, w') \<Rightarrow> (Inr True, print w' (fixed_msg filepath)))
             else (Inr False, print w (no_changes_msg filepath)))"

text \<open>The loop of \<open>main\<close> over the file names, with the count so far.\<close>

fun main_loop :: "world \<Rightarrow> nat \<Rightarrow> str list \<Rightarrow> (error + nat) \<times> world" where
  "main_loop w fixed_count [] = (Inr fixed_count, w)"
| "main_loop w fixed_count (filename # rest) =
     (let filepath = path_join JS_DIR filename
      in if path_exists w filepath
         then (case fix_file w filepath of
                 (Inl e, w') \<Rightarrow> (Inl e, w')
               | (Inr fixed, w') \<Rightarrow>
                   main_loop w' (if fixed then fixed_count + 1 else fixed_count) rest)
         else main_loop (print w (not_found_msg filepath)) fixed_count rest)"

text \<open>
  The body of \<open>main\<close> for a list of names: the loop, then the summary line. An error of
  \<open>fix_file\<close> is not handled, so it ends the loop and the run. \<open>main\<close> is the run on
  \<open>files_to_fix\<close>.
\<close>

definition run :: "world \<Rightarrow> str list \<Rightarrow> (error + unit) \<times> world" where
  "run w names =
     (case main_loop w 0 names of
        (Inl e, w') \<Rightarrow> (Inl e, w')
      | (Inr fixed_count, w') \<Rightarrow> (Inr (), print w' (summary_msg fixed_count)))"

definition main :: "world \<Rightarrow> (error + unit) \<times> world" where
  "main w = run w files_to_fix"

text \<open>
  The text of the example scenario, and the content and outcome of a file as the claims speak
  of them.
\<close>

definition guarded_example :: str where
  "guarded_example = lit
''const token = localStorage.getItem('auth_token');\<newline>    if (!token) {\<newline>        window.location.href = '/';\<newline>        return;\<newline>    }''"

text \<open>
  The guarded idiom with the four stretches of text that pattern 1 matches by \<open>\s+\<close>, and
  what such a stretch has to be: one or more whitespace characters.
\<close>

definition idiom :: "str \<Rightarrow> str \<Rightarrow> str \<Rightarrow> str \<Rightarrow> str" where
  "idiom g1 g2 g3 g4 =
     token_stmt @ g1 @ lit ''if (!token) {'' @ g2 @ lit ''window.location.href = '/';'' @ g3 @
     lit ''return;'' @ g4 @ lit ''}''"

definition gap :: "str \<Rightarrow> bool" where
  "gap g \<longleftrightarrow> g \<noteq> [] \<and> list_all is_space g"

text \<open>
  Two variations of the example: no whitespace between the two statements, and no space
  before the opening brace.
\<close>

definition adjacent_example :: str where
  "adjacent_example = lit
''const token = localStorage.getItem('auth_token');if (!token) {\<newline>        window.location.href = '/';\<newline>        return;\<newline>    }''"

definition tight_brace_example :: str where
  "tight_brace_example = lit
''const token = localStorage.getItem('auth_token');\<newline>    if (!token){\<newline>        window.location.href = '/';\<newline>        return;\<newline>    }''"

definition file_content :: "world \<Rightarrow> str \<Rightarrow> str option option" where
  "file_content w p = map_option fdata (files w p)"

definition plain_file :: "str \<Rightarrow> file_node" where
  "plain_file c = \<lparr>fdata = Some c, readable = True, writable = True\<rparr>"

definition plain_text :: str where
  "plain_text = lit ''let x = 1;''"

definition billings_path :: str where
  "billings_path = lit ''frontend/assets/js/billings.js''"

definition empty_world :: world where
  "empty_world = \<lparr>files = Map.empty, console = [], opened_w = []\<rparr>"

definition locked_file :: file_node where
  "locked_file = \<lparr>fdata = Some guarded_example, readable = False, writable = False\<rparr>"

definition one_file_world :: "str \<Rightarrow> file_node \<Rightarrow> world" where
  "one_file_world p f = \<lparr>files = [p \<mapsto> f], console = [], opened_w = []\<rparr>"

text \<open>A world whose only file is \<open>billings.js\<close> with the example as content.\<close>

definition billings_world :: world where
  "billings_world = one_file_world billings_path (plain_file guarded_example)"

text \<open>
  The value of a string of decimal digits, to say which number a printed count denotes.
\<close>

definition digits_value :: "str \<Rightarrow> nat" where
  "digits_value ds = foldl (\<lambda>a d. 10 * a + (d - 48)) 0 ds"

text \<open>
  A world with two of the nine files, both with the example as content, and the worlds a
  run passes through: after the first name, at the end of the loop, and after the summary.
\<close>

definition whatsapp_path :: str where
  "whatsapp_path = lit ''frontend/assets/js/whatsapp-bot.js''"

definition two_file_world :: world where
  "two_file_world =
     \<lparr>files = [billings_path \<mapsto> plain_file guarded_example,
               whatsapp_path \<mapsto> plain_file guarded_example],
      console = [], opened_w = []\<rparr>"

definition two_file_world_1 :: world where
  "two_file_world_1 =
     \<lparr>files = [billings_path \<mapsto> plain_file replacement1,
               whatsapp_path \<mapsto> plain_file guarded_example],
      console = [fixed_msg billings_path], opened_w = [billings_path]\<rparr>"

definition two_file_world_end :: world where
  "two_file_world_end =
     \<lparr>files = [billings_path \<mapsto> plain_file replacement1,
               whatsapp_path \<mapsto> plain_file replacement1],
      console =
        [10003 # lit '' Fixed frontend/assets/js/billings.js'',
         10007 # lit '' File not found: frontend/assets/js/chatbot-ai.js'',
         10007 # lit '' File not found: frontend/assets/js/device-settings.js'',
         10007 # lit '' File not found: frontend/assets/js/flow-builder.js'',
         10007 # lit '' File not found: frontend/assets/js/flow-manager.js'',
         10007 # lit '' File not found: frontend/assets/js/packages.js'',
         10007 # lit '' File not found: frontend/assets/js/profile.js'',
         10007 # lit '' File not found: frontend/assets/js/set-stage.js'',
         10003 # lit '' Fixed frontend/assets/js/whatsapp-bot.js''],
      opened_w = [billings_path, whatsapp_path]\<rparr>"

definition two_file_world_final :: world where
  "two_file_world_final =
     two_file_world_end\<lparr>console := console two_file_world_end @ [lit ''\<newline>Fixed 2 files'']\<rparr>"

section \<open>Facts about the literals\<close>

lemma token_stmt_code:
  "token_stmt = [99, 111, 110, 115, 116, 32, 116, 111, 107, 101, 110, 32, 61, 32, 108, 111,
  99, 97, 108, 83, 116, 111, 114, 97, 103, 101, 46, 103, 101, 116, 73, 116,
  101, 109, 40, 39, 97, 117, 116, 104, 95, 116, 111, 107, 101, 110, 39, 41, 59]"
  by (simp add: token_stmt_def lit_def)

lemma replacement2_code: "replacement2 = [99, 111, 110, 115, 116, 32, 123, 32, 100, 97, 116, 97, 58, 32, 123, 32,
  115, 101, 115, 115, 105, 111, 110, 32, 125, 32, 125, 32, 61, 32, 97, 119,
  97, 105, 116, 32, 119, 105, 110, 100, 111, 119, 46, 115, 117, 112, 97, 98,
  97, 115, 101, 46, 97, 117, 116, 104, 46, 103, 101, 116, 83, 101, 115, 115,
  105, 111, 110, 40, 41, 59, 10, 32, 32, 32, 32, 99, 111, 110, 115, 116, 32,
  116, 111, 107, 101, 110, 32, 61, 32, 115, 101, 115, 115, 105, 111, 110,
  63, 46, 97, 99, 99, 101, 115, 115, 95, 116, 111, 107, 101, 110, 59]"
  by (simp add: replacement2_def lit_def)

lemma replacement1_code: "replacement1 = [47, 47, 32, 71, 101, 116, 32, 83, 117, 112, 97, 98, 97, 115, 101, 32, 115,
  101, 115, 115, 105, 111, 110, 32, 116, 111, 107, 101, 110, 10, 32, 32, 32,
  32, 99, 111, 110, 115, 116, 32, 123, 32, 100, 97, 116, 97, 58, 32, 123,
  32, 115, 101, 115, 115, 105, 111, 110, 32, 125, 32, 125, 32, 61, 32, 97,
  119, 97, 105, 116, 32, 119, 105, 110, 100, 111, 119, 46, 115, 117, 112,
  97, 98, 97, 115, 101, 46, 97, 117, 116, 104, 46, 103, 101, 116, 83, 101,
  115, 115, 105, 111, 110, 40, 41, 59, 10, 32, 32, 32, 32, 105, 102, 32, 40,
  33, 115, 101, 115, 115, 105, 111, 110, 41, 32, 123, 10, 32, 32, 32, 32,
  32, 32, 32, 32, 119, 105, 110, 100, 111, 119, 46, 108, 111, 99, 97, 116,
  105, 111, 110, 46, 104, 114, 101, 102, 32, 61, 32, 39, 47, 105, 110, 100,
  101, 120, 46, 104, 116, 109, 108, 39, 59, 10, 32, 32, 32, 32, 32, 32, 32,
  32, 114, 101, 116, 117, 114, 110, 59, 10, 32, 32, 32, 32, 125, 10, 32, 32,
  32, 32, 99, 111, 110, 115, 116, 32, 116, 111, 107, 101, 110, 32, 61, 32,
  115, 101, 115, 115, 105, 111, 110, 46, 97, 99, 99, 101, 115, 115, 95, 116,
  111, 107, 101, 110, 59]"
  by (simp add: replacement1_def lit_def)

lemma length_token_stmt: "length token_stmt = 49"
  by (simp add: token_stmt_code)

lemma token_stmt_facts:
  "token_stmt \<noteq> []" "last token_stmt = 59" "59 \<notin> set (take 48 token_stmt)"
  "73 \<in> set token_stmt" "59 \<notin> set (butlast token_stmt)" "hd token_stmt = 99"
  by (simp_all add: token_stmt_code)

lemma replacement2_facts:
  "replacement2 \<noteq> []" "last replacement2 = 59" "59 \<notin> set (take 48 replacement2)"
  "73 \<notin> set replacement2" "48 \<le> length replacement2" "hd replacement2 = 99"
  by (simp_all add: replacement2_code)

lemma replacement1_facts:
  "replacement1 \<noteq> []" "59 \<notin> set (take 48 replacement1)"
  "48 \<le> length replacement1" "hd replacement1 = 47"
  by (simp_all add: replacement1_code)

lemma cross:
  assumes l: "l \<noteq> []" and e: "last l \<notin> set (take (length l - 1) t)"
    and len: "length l - 1 \<le> length t"
    and b: "b \<noteq> []" and p: "prefix l (b @ t @ x)"
  shows "prefix l b"
proof -
  from p consider "prefix l b" | us where "l = b @ us" "prefix us (t @ x)"
    by (auto simp: prefix_append)
  then show ?thesis
  proof cases
    case 1 then show ?thesis .
  next
    case 2
    show ?thesis
    proof (cases "us = []")
      case True with 2 show ?thesis by simp
    next
      case False
      from 2(1) b have lus: "length us \<le> length l - 1"
        by (cases b) auto
      from 2(1) False have "last l = last us" by simp
      with False have in_us: "last l \<in> set us" by (metis last_in_set)
      from 2(2) have "us = take (length us) (t @ x)"
        by (metis append_eq_conv_conj prefix_def)
      also have "\<dots> = take (length us) t"
        using lus len by simp
      finally have "set us \<subseteq> set (take (length l - 1) t)"
        using lus by (metis set_take_subset_set_take)
      with in_us e show ?thesis by blast
    qed
  qed
qed

lemma cross_stmt:
  assumes "b \<noteq> []" "prefix token_stmt (b @ token_stmt @ x)"
  shows "prefix token_stmt b"
  using cross[of token_stmt token_stmt b x] assms
  by (simp add: token_stmt_facts length_token_stmt)

lemma cross_r2:
  assumes "b \<noteq> []" "prefix token_stmt (b @ replacement2 @ x)"
  shows "prefix token_stmt b"
  using cross[of token_stmt replacement2 b x] assms
  by (simp add: token_stmt_facts replacement2_facts length_token_stmt)

lemma cross_r1:
  assumes "b \<noteq> []" "prefix token_stmt (b @ replacement1 @ x)"
  shows "prefix token_stmt b"
  using cross[of token_stmt replacement1 b x] assms
  by (simp add: token_stmt_facts replacement1_facts length_token_stmt)

lemma inside_r2:
  assumes r: "replacement2 = a @ b" and b: "b \<noteq> []"
  shows "\<not> prefix token_stmt (b @ x)"
proof
  assume "prefix token_stmt (b @ x)"
  then have "prefix token_stmt b \<or> (\<exists>us. token_stmt = b @ us \<and> us \<noteq> [])"
    by (cases "prefix token_stmt b") (auto simp: prefix_append)
  then consider "prefix token_stmt b" | us where "token_stmt = b @ us" "us \<noteq> []"
    by blast
  then show False
  proof cases
    case 1
    then have "set token_stmt \<subseteq> set b" by (auto simp: prefix_def)
    also have "\<dots> \<subseteq> set replacement2" using arg_cong[OF r, of set] by auto
    finally show False using token_stmt_facts(4) replacement2_facts(4) by blast
  next
    case 2
    from r b have "last b = 59" using replacement2_facts(2) by (metis last_appendR)
    with b have "59 \<in> set b" by (metis last_in_set)
    moreover from 2 have "butlast token_stmt = b @ butlast us" by (metis butlast_append)
    ultimately show False using token_stmt_facts(5) by simp
  qed
qed

lemma pattern2_eq: "pattern2 = [Lit token_stmt]"
  by (simp add: pattern2_def token_stmt_def)

lemma match_here_pattern2:
  "match_here pattern2 s = (if prefix token_stmt s then Some (drop 49 s) else None)"
  by (simp add: pattern2_eq length_token_stmt)

lemma re_sub_match:
  "match_here p s = Some rest \<Longrightarrow> length rest < length s \<Longrightarrow> re_sub p r s = r @ re_sub p r rest"
  by (cases s) auto

lemma re_sub_nomatch:
  "match_here p (c # cs) = None \<Longrightarrow> re_sub p r (c # cs) = c # re_sub p r cs"
  by simp

lemma rule_B_Nil: "rule_B [] = []"
  by (simp add: rule_B_def match_here_pattern2 token_stmt_facts)

lemma rule_B_match: "rule_B (token_stmt @ rest) = replacement2 @ rule_B rest"
  unfolding rule_B_def
  by (rule re_sub_match) (simp_all add: match_here_pattern2 length_token_stmt)

lemma rule_B_nomatch:
  "\<not> prefix token_stmt (c # cs) \<Longrightarrow> rule_B (c # cs) = c # rule_B cs"
  unfolding rule_B_def
  by (rule re_sub_nomatch) (simp add: match_here_pattern2)

lemma contains_append:
  "contains l (p @ s) \<longleftrightarrow> starts_within l p s \<or> contains l s"
  by (induction p) auto

lemma starts_within_snoc:
  "starts_within l (p @ [c]) s \<longleftrightarrow> starts_within l p (c # s) \<or> prefix l (c # s)"
  by (induction p) auto

lemma starts_within_r2:
  "\<not> starts_within token_stmt p (token_stmt @ x) \<Longrightarrow>
   \<not> starts_within token_stmt p (replacement2 @ y)"
proof (induction p)
  case Nil
  then show ?case by simp
next
  case (Cons c p)
  have "\<not> prefix token_stmt (c # p @ replacement2 @ y)"
  proof
    assume "prefix token_stmt (c # p @ replacement2 @ y)"
    then have "prefix token_stmt ((c # p) @ replacement2 @ y)" by simp
    then have "prefix token_stmt (c # p)" by (rule cross_r2[rotated]) simp
    then have "prefix token_stmt ((c # p) @ token_stmt @ x)" by (rule prefix_prefix)
    with Cons.prems show False by simp
  qed
  with Cons show ?case by simp
qed

lemma no_start_in_r2:
  "replacement2 = a @ b \<Longrightarrow> \<not> starts_within token_stmt b x"
proof (induction b arbitrary: a)
  case Nil
  then show ?case by simp
next
  case (Cons c b)
  from Cons.prems have "\<not> prefix token_stmt ((c # b) @ x)"
    by (rule inside_r2) simp
  moreover from Cons.prems have "replacement2 = (a @ [c]) @ b" by simp
  then have "\<not> starts_within token_stmt b x" by (rule Cons.IH)
  ultimately show ?case by simp
qed

lemma rule_B_keeps:
  "(\<forall>p. \<not> starts_within token_stmt p s \<longrightarrow> \<not> starts_within token_stmt p (rule_B s)) \<and>
   \<not> contains token_stmt (rule_B s)"
proof (induction s rule: length_induct)
  case (1 s)
  show ?case
  proof (cases "prefix token_stmt s")
    case True
    then obtain rest where s: "s = token_stmt @ rest" by (auto simp: prefix_def)
    have lt: "length rest < length s" by (simp add: s length_token_stmt)
    have B: "rule_B s = replacement2 @ rule_B rest" by (simp add: s rule_B_match)
    from 1[rule_format, OF lt] have IH2: "\<not> contains token_stmt (rule_B rest)"
      by (rule conjunct2)
    have "\<not> starts_within token_stmt replacement2 (rule_B rest)"
      by (rule no_start_in_r2[of "[]"]) simp
    with IH2 have part2: "\<not> contains token_stmt (rule_B s)"
      by (simp add: B contains_append)
    have part1: "\<forall>p. \<not> starts_within token_stmt p s \<longrightarrow> \<not> starts_within token_stmt p (rule_B s)"
      using starts_within_r2 by (auto simp: s rule_B_match)
    from part1 part2 show ?thesis by (rule conjI)
  next
    case False
    show ?thesis
    proof (cases s)
      case Nil
      then show ?thesis by (simp add: rule_B_Nil token_stmt_facts(1))
    next
      case (Cons c cs)
      with False have np: "\<not> prefix token_stmt (c # cs)" by simp
      then have B: "rule_B (c # cs) = c # rule_B cs" by (rule rule_B_nomatch)
      have "length cs < length s" by (simp add: Cons)
      from 1[rule_format, OF this]
      have IH1: "\<And>p. \<not> starts_within token_stmt p cs \<Longrightarrow> \<not> starts_within token_stmt p (rule_B cs)"
        and IH2: "\<not> contains token_stmt (rule_B cs)"
        by simp_all
      have step: "\<not> starts_within token_stmt p (c # rule_B cs) \<and> \<not> prefix token_stmt (c # rule_B cs)"
        if "\<not> starts_within token_stmt p (c # cs)" for p
      proof -
        from that np have "\<not> starts_within token_stmt (p @ [c]) cs"
          by (simp add: starts_within_snoc)
        then have "\<not> starts_within token_stmt (p @ [c]) (rule_B cs)" by (rule IH1)
        then show ?thesis by (simp add: starts_within_snoc)
      qed
      have part1: "\<forall>p. \<not> starts_within token_stmt p s \<longrightarrow> \<not> starts_within token_stmt p (rule_B s)"
        unfolding Cons B using step by blast
      have "\<not> prefix token_stmt (c # rule_B cs)"
        using step[of "[]"] by simp
      with IH2 have part2: "\<not> contains token_stmt (rule_B s)"
        by (simp add: Cons B)
      from part1 part2 show ?thesis by (rule conjI)
    qed
  qed
qed

lemma pattern1_eq:
  "pattern1 = [Lit token_stmt, Spaces1, Lit (lit ''if (!token) {''), Spaces1,
      Lit (lit ''window.location.href = '/';''), Spaces1,
      Lit (lit ''return;''), Spaces1, Lit (lit ''}'')]"
  by (simp add: pattern1_def token_stmt_def)

lemma match_here_suffix: "match_here p s = Some rest \<Longrightarrow> suffix rest s"
proof (induction p s rule: match_here.induct)
  case (1 s)
  then show ?case by simp
next
  case (2 l ps s)
  then have "suffix rest (drop (length l) s)" by (simp split: if_splits)
  then show ?case by (meson suffix_drop suffix_order.trans)
next
  case (3 ps)
  then show ?case by simp
next
  case (4 ps c cs)
  then have "suffix rest cs" by (auto split: if_splits option.splits)
  then show ?case by (simp add: suffix_Cons)
qed

lemma match_here_pattern1_prefix:
  assumes "match_here pattern1 s = Some rest"
  shows "prefix token_stmt s" and "length rest < length s"
proof -
  from assms show p: "prefix token_stmt s"
    by (simp add: pattern1_eq split: if_splits)
  from assms have "match_here (tl pattern1) (drop 49 s) = Some rest"
    by (simp add: pattern1_eq length_token_stmt split: if_splits)
  then have "suffix rest (drop 49 s)" by (rule match_here_suffix)
  then have "length rest \<le> length s - 49" by (metis length_drop suffix_length_le)
  moreover from p have "49 \<le> length s" by (metis length_token_stmt prefix_length_le)
  ultimately show "length rest < length s" by simp
qed

lemma match_here_pattern1_None: "\<not> prefix token_stmt s \<Longrightarrow> match_here pattern1 s = None"
  by (simp add: pattern1_eq)

lemma rule_A_Nil: "rule_A [] = []"
  by (simp add: rule_A_def match_here_pattern1_None token_stmt_facts(1))

lemma rule_A_match:
  "match_here pattern1 s = Some rest \<Longrightarrow> rule_A s = replacement1 @ rule_A rest"
  unfolding rule_A_def
  by (rule re_sub_match) (simp_all add: match_here_pattern1_prefix)

lemma rule_A_nomatch:
  "match_here pattern1 (c # cs) = None \<Longrightarrow> rule_A (c # cs) = c # rule_A cs"
  unfolding rule_A_def by (rule re_sub_nomatch)

lemma rule_A_absent: "\<not> contains token_stmt s \<Longrightarrow> rule_A s = s"
proof (induction s)
  case Nil
  then show ?case by (simp add: rule_A_Nil)
next
  case (Cons c cs)
  then have "match_here pattern1 (c # cs) = None" by (simp add: match_here_pattern1_None)
  then have "rule_A (c # cs) = c # rule_A cs" by (rule rule_A_nomatch)
  with Cons show ?case by simp
qed

lemma rule_B_absent: "\<not> contains token_stmt s \<Longrightarrow> rule_B s = s"
proof (induction s)
  case Nil
  then show ?case by (simp add: rule_B_Nil)
next
  case (Cons c cs)
  then have "rule_B (c # cs) = c # rule_B cs" by (simp add: rule_B_nomatch)
  with Cons show ?case by simp
qed

lemma rule_B_no_stmt: "\<not> contains token_stmt (rule_B s)"
  using rule_B_keeps[of s] by (rule conjunct2)

lemma rewrite_no_stmt: "\<not> contains token_stmt (rewrite s)"
  by (simp add: rewrite_def rule_B_no_stmt)

lemma rewrite_absent: "\<not> contains token_stmt s \<Longrightarrow> rewrite s = s"
  by (simp add: rewrite_def rule_A_absent rule_B_absent)

lemma rewrite_idem: "rewrite (rewrite c) = rewrite c"
  by (rule rewrite_absent) (rule rewrite_no_stmt)

section \<open>Effects of \<open>fix_file\<close> and of the loop\<close>

lemma fix_file_cases:
  "fix_file w p =
    (case files w p of
       None \<Rightarrow> (Inl IOFailure, w)
     | Some f \<Rightarrow>
         if \<not> readable f then (Inl IOFailure, w)
         else (case fdata f of
                 None \<Rightarrow> (Inl DecodeFailure, w)
               | Some c \<Rightarrow>
                   if rewrite c \<noteq> c
                   then (if writable f
                         then (Inr True,
                               print (w\<lparr>files := (files w)(p \<mapsto> f\<lparr>fdata := Some (rewrite c)\<rparr>),
                                        opened_w := opened_w w @ [p]\<rparr>) (fixed_msg p))
                         else (Inl IOFailure, w))
                   else (Inr False, print w (no_changes_msg p))))"
  by (simp add: fix_file_def read_file_def write_file_def rewrite_def rule_A_def rule_B_def
      Let_def split: option.splits)

lemma fix_file_error: "fix_file w p = (Inl e, w') \<Longrightarrow> w' = w"
  by (auto simp: fix_file_cases split: option.splits if_splits)

lemma fix_file_ok:
  assumes "fix_file w p = (Inr b, w')"
  shows "\<exists>f c. files w p = Some f \<and> readable f \<and> fdata f = Some c \<and> b = (rewrite c \<noteq> c) \<and>
           (b \<longrightarrow> writable f) \<and>
           w' = (if b
                 then print (w\<lparr>files := (files w)(p \<mapsto> f\<lparr>fdata := Some (rewrite c)\<rparr>),
                              opened_w := opened_w w @ [p]\<rparr>) (fixed_msg p)
                 else print w (no_changes_msg p))"
  using assms by (auto simp: fix_file_cases split: option.splits if_splits)

lemma fix_file_frame:
  "fix_file w p = (r, w') \<Longrightarrow> q \<noteq> p \<Longrightarrow> files w' q = files w q"
  by (auto simp: fix_file_cases print_def split: option.splits if_splits)

lemma fix_file_dom:
  "fix_file w p = (r, w') \<Longrightarrow> dom (files w') = dom (files w)"
  by (auto simp: fix_file_cases print_def split: option.splits if_splits)

lemma fix_file_changed:
  "fix_file w p = (Inr b, w') \<Longrightarrow> b = (file_content w' p \<noteq> file_content w p)"
  by (auto simp: fix_file_cases print_def file_content_def split: option.splits if_splits)

lemma main_loop_append:
  "main_loop w n (xs @ ys) =
     (case main_loop w n xs of (Inl e, w') \<Rightarrow> (Inl e, w') | (Inr k, w') \<Rightarrow> main_loop w' k ys)"
  by (induction xs arbitrary: w n) (auto simp: Let_def split: prod.splits sum.splits)

lemma main_loop_dom:
  "main_loop w n xs = (r, w') \<Longrightarrow> dom (files w') = dom (files w)"
proof (induction xs arbitrary: w n)
  case Nil
  then show ?case by simp
next
  case (Cons x xs)
  show ?case
  proof (cases "path_exists w (path_join JS_DIR x)")
    case False
    with Cons.prems have "main_loop (print w (not_found_msg (path_join JS_DIR x))) n xs = (r, w')"
      by simp
    from Cons.IH[OF this] show ?thesis by (simp add: print_def)
  next
    case True
    obtain r1 w1 where f: "fix_file w (path_join JS_DIR x) = (r1, w1)" by force
    then have d: "dom (files w1) = dom (files w)" by (rule fix_file_dom)
    show ?thesis
    proof (cases r1)
      case (Inl e)
      with Cons.prems True f have "w' = w1" by simp
      with d show ?thesis by simp
    next
      case (Inr b)
      with Cons.prems True f have "main_loop w1 (if b then n + 1 else n) xs = (r, w')" by simp
      from Cons.IH[OF this] d show ?thesis by simp
    qed
  qed
qed

lemma main_loop_frame:
  "main_loop w n xs = (r, w') \<Longrightarrow> q \<notin> set (map (path_join JS_DIR) xs) \<Longrightarrow>
   files w' q = files w q"
proof (induction xs arbitrary: w n)
  case Nil
  then show ?case by simp
next
  case (Cons x xs)
  from Cons.prems(2) have q: "q \<noteq> path_join JS_DIR x" "q \<notin> set (map (path_join JS_DIR) xs)"
    by auto
  show ?case
  proof (cases "path_exists w (path_join JS_DIR x)")
    case False
    with Cons.prems have "main_loop (print w (not_found_msg (path_join JS_DIR x))) n xs = (r, w')"
      by simp
    from Cons.IH[OF this q(2)] show ?thesis by (simp add: print_def)
  next
    case True
    obtain r1 w1 where f: "fix_file w (path_join JS_DIR x) = (r1, w1)" by force
    then have d: "files w1 q = files w q" using q(1) by (rule fix_file_frame)
    show ?thesis
    proof (cases r1)
      case (Inl e)
      with Cons.prems True f have "w' = w1" by simp
      with d show ?thesis by simp
    next
      case (Inr b)
      with Cons.prems True f have "main_loop w1 (if b then n + 1 else n) xs = (r, w')" by simp
      from Cons.IH[OF this q(2)] d show ?thesis by simp
    qed
  qed
qed

lemma file_content_print [simp]: "file_content (print w l) p = file_content w p"
  by (simp add: file_content_def print_def)

lemma main_loop_count:
  "distinct (map (path_join JS_DIR) xs) \<Longrightarrow> main_loop w n xs = (Inr m, w') \<Longrightarrow>
   m = n + length (filter (\<lambda>x. file_content w' (path_join JS_DIR x) \<noteq>
                               file_content w (path_join JS_DIR x)) xs)"
proof (induction xs arbitrary: w n)
  case Nil
  then show ?case by simp
next
  case (Cons x xs)
  let ?p = "path_join JS_DIR x"
  from Cons.prems(1) have notin: "?p \<notin> set (map (path_join JS_DIR) xs)"
    and dist: "distinct (map (path_join JS_DIR) xs)" by auto
  show ?case
  proof (cases "path_exists w ?p")
    case False
    with Cons.prems have run: "main_loop (print w (not_found_msg ?p)) n xs = (Inr m, w')"
      by simp
    from main_loop_frame[OF run notin] have "file_content w' ?p = file_content w ?p"
      by (simp add: file_content_def print_def)
    with Cons.IH[OF dist run] show ?thesis by simp
  next
    case True
    obtain r1 w1 where f: "fix_file w ?p = (r1, w1)" by force
    with Cons.prems True obtain b where r1: "r1 = Inr b"
      by (cases r1) auto
    with Cons.prems True f have run: "main_loop w1 (if b then n + 1 else n) xs = (Inr m, w')"
      by simp
    from main_loop_frame[OF run notin] have same: "file_content w' ?p = file_content w1 ?p"
      by (simp add: file_content_def)
    from f r1 have b: "b = (file_content w1 ?p \<noteq> file_content w ?p)"
      by (simp add: fix_file_changed)
    have "filter (\<lambda>y. file_content w' (path_join JS_DIR y) \<noteq> file_content w1 (path_join JS_DIR y)) xs
        = filter (\<lambda>y. file_content w' (path_join JS_DIR y) \<noteq> file_content w (path_join JS_DIR y)) xs"
    proof (rule filter_cong[OF refl])
      fix y assume "y \<in> set xs"
      with notin have "path_join JS_DIR y \<noteq> ?p" by (metis image_eqI set_map)
      with f have "files w1 (path_join JS_DIR y) = files w (path_join JS_DIR y)"
        by (rule fix_file_frame)
      then show "(file_content w' (path_join JS_DIR y) \<noteq> file_content w1 (path_join JS_DIR y))
               = (file_content w' (path_join JS_DIR y) \<noteq> file_content w (path_join JS_DIR y))"
        by (simp add: file_content_def)
    qed
    with Cons.IH[OF dist run] same b show ?thesis by auto
  qed
qed

lemma msg_not_summary:
  "fixed_msg p \<noteq> summary_msg k" "no_changes_msg p \<noteq> summary_msg k"
  "not_found_msg p \<noteq> summary_msg k"
  by (simp_all add: fixed_msg_def no_changes_msg_def not_found_msg_def summary_msg_def lit_def)

lemma fix_file_console:
  "fix_file w p = (r, w') \<Longrightarrow>
   console w' = console w \<or> console w' = console w @ [fixed_msg p] \<or>
   console w' = console w @ [no_changes_msg p]"
  by (auto simp: fix_file_cases print_def split: option.splits if_splits)

lemma main_loop_console:
  "main_loop w n xs = (r, w') \<Longrightarrow>
   \<exists>lines. console w' = console w @ lines \<and> (\<forall>l\<in>set lines. \<forall>k. l \<noteq> summary_msg k)"
proof (induction xs arbitrary: w n)
  case Nil
  then show ?case by simp
next
  case (Cons x xs)
  let ?p = "path_join JS_DIR x"
  show ?case
  proof (cases "path_exists w ?p")
    case False
    with Cons.prems have "main_loop (print w (not_found_msg ?p)) n xs = (r, w')" by simp
    from Cons.IH[OF this] obtain lines where
      "console w' = console w @ not_found_msg ?p # lines" "\<forall>l\<in>set lines. \<forall>k. l \<noteq> summary_msg k"
      by (auto simp: print_def)
    then have "console w' = console w @ (not_found_msg ?p # lines) \<and>
         (\<forall>l\<in>set (not_found_msg ?p # lines). \<forall>k. l \<noteq> summary_msg k)"
      by (simp add: msg_not_summary)
    then show ?thesis by blast
  next
    case True
    obtain r1 w1 where f: "fix_file w ?p = (r1, w1)" by force
    from fix_file_console[OF f] obtain l1 where l1: "console w1 = console w @ l1"
      "\<forall>l\<in>set l1. \<forall>k. l \<noteq> summary_msg k"
      by (elim disjE) (auto simp: msg_not_summary)
    show ?thesis
    proof (cases r1)
      case (Inl e)
      with Cons.prems True f have "w' = w1" by simp
      with l1 show ?thesis by blast
    next
      case (Inr b)
      with Cons.prems True f have "main_loop w1 (if b then n + 1 else n) xs = (r, w')" by simp
      from Cons.IH[OF this] obtain l2 where "console w' = console w1 @ l2"
        "\<forall>l\<in>set l2. \<forall>k. l \<noteq> summary_msg k" by blast
      with l1 have "console w' = console w @ (l1 @ l2) \<and>
          (\<forall>l\<in>set (l1 @ l2). \<forall>k. l \<noteq> summary_msg k)" by auto
      then show ?thesis by blast
    qed
  qed
qed

lemma paths_distinct: "distinct (map (path_join JS_DIR) files_to_fix)"
  by (simp add: files_to_fix_def path_join_def JS_DIR_def lit_def suffix_to_prefix)

section \<open>Matches of pattern 1 and the order of the rules\<close>

lemma match_spaces_Cons:
  assumes x: "\<not> is_space x"
  shows "gap g \<Longrightarrow>
    match_here (Spaces1 # Lit (x # l) # qs) (g @ x # l @ u) = match_here qs u"
proof (induction g)
  case Nil
  then show ?case by (simp add: gap_def)
next
  case (Cons c g)
  then have c: "is_space c" and all: "list_all is_space g" by (simp_all add: gap_def)
  show ?case
  proof (cases g)
    case Nil
    with c x show ?thesis by simp
  next
    case (Cons d g')
    with all have d: "is_space d" by simp
    from Cons all have "gap g" by (simp add: gap_def)
    then have IH: "match_here (Spaces1 # Lit (x # l) # qs) (g @ x # l @ u) = match_here qs u"
      by (rule Cons.IH)
    from d x have "d \<noteq> x" by auto
    then have "match_here (Lit (x # l) # qs) (g @ x # l @ u) = None"
      by (simp add: Cons)
    with c IH show ?thesis by (simp split: option.splits)
  qed
qed

lemma match_spaces_lit:
  assumes "gap g" "l \<noteq> []" "\<not> is_space (hd l)"
  shows "match_here (Spaces1 # Lit l # qs) (g @ l @ u) = match_here qs u"
proof -
  from assms(2) obtain x l' where l: "l = x # l'" by (cases l) auto
  with assms(3) have "\<not> is_space x" by simp
  from match_spaces_Cons[OF this assms(1), of l' qs u] show ?thesis by (simp add: l)
qed

lemma idiom_match:
  assumes "gap g1" "gap g2" "gap g3" "gap g4"
  shows "match_here pattern1 (idiom g1 g2 g3 g4 @ rest) = Some rest"
proof -
  have 4: "match_here [Spaces1, Lit (lit ''}'')] (g4 @ lit ''}'' @ rest) = Some rest"
    by (subst match_spaces_lit) (simp_all add: assms lit_def is_space_def)
  have 3: "match_here [Spaces1, Lit (lit ''return;''), Spaces1, Lit (lit ''}'')]
             (g3 @ lit ''return;'' @ g4 @ lit ''}'' @ rest) = Some rest"
    by (subst match_spaces_lit) (simp_all add: assms 4, simp_all add: lit_def is_space_def)
  have 2: "match_here [Spaces1, Lit (lit ''window.location.href = '/';''), Spaces1,
              Lit (lit ''return;''), Spaces1, Lit (lit ''}'')]
             (g2 @ lit ''window.location.href = '/';'' @ g3 @ lit ''return;'' @ g4 @ lit ''}'' @ rest)
           = Some rest"
    by (subst match_spaces_lit) (simp_all add: assms 3, simp_all add: lit_def is_space_def)
  have 1: "match_here [Spaces1, Lit (lit ''if (!token) {''), Spaces1,
              Lit (lit ''window.location.href = '/';''), Spaces1,
              Lit (lit ''return;''), Spaces1, Lit (lit ''}'')]
             (g1 @ lit ''if (!token) {'' @ g2 @ lit ''window.location.href = '/';'' @ g3 @
              lit ''return;'' @ g4 @ lit ''}'' @ rest)
           = Some rest"
    by (subst match_spaces_lit) (simp_all add: assms 2, simp_all add: lit_def is_space_def)
  show ?thesis
    unfolding pattern1_eq idiom_def
    by (simp del: match_here.simps(4) add: length_token_stmt 1)
qed

lemma rule_A_idiom:
  assumes "gap g1" "gap g2" "gap g3" "gap g4"
  shows "rule_A (idiom g1 g2 g3 g4 @ rest) = replacement1 @ rule_A rest"
  by (rule rule_A_match) (rule idiom_match[OF assms])

lemma diverge:
  "rule_B (u @ replacement1 @ y) \<noteq> rule_B (u @ token_stmt @ x)"
proof (induction u rule: length_induct)
  case (1 u)
  show ?case
  proof (cases u)
    case Nil
    have "\<not> prefix token_stmt (replacement1 @ y)"
      by (simp add: replacement1_code token_stmt_code)
    then have "rule_B (hd replacement1 # tl replacement1 @ y) =
        hd replacement1 # rule_B (tl replacement1 @ y)"
      by (intro rule_B_nomatch) (simp add: replacement1_code)
    then have "rule_B (replacement1 @ y) = 47 # rule_B (tl replacement1 @ y)"
      by (simp add: replacement1_code)
    moreover have "rule_B (token_stmt @ x) = 99 # tl replacement2 @ rule_B x"
      by (simp add: rule_B_match) (simp add: replacement2_code)
    ultimately show ?thesis by (simp add: Nil)
  next
    case (Cons c u')
    show ?thesis
    proof (cases "prefix token_stmt u")
      case True
      then obtain u2 where u: "u = token_stmt @ u2" by (auto simp: prefix_def)
      then have "length u2 < length u" by (simp add: length_token_stmt)
      from 1[rule_format, OF this]
      have "rule_B (u2 @ replacement1 @ y) \<noteq> rule_B (u2 @ token_stmt @ x)" .
      then show ?thesis by (simp add: u rule_B_match)
    next
      case False
      have n1: "\<not> prefix token_stmt (u @ replacement1 @ y)"
        using cross_r1[of u y] False Cons by auto
      have n2: "\<not> prefix token_stmt (u @ token_stmt @ x)"
        using cross_stmt[of u x] False Cons by auto
      from Cons have "length u' < length u" by simp
      from 1[rule_format, OF this]
      have "rule_B (u' @ replacement1 @ y) \<noteq> rule_B (u' @ token_stmt @ x)" .
      moreover from n1 have "rule_B (c # u' @ replacement1 @ y) = c # rule_B (u' @ replacement1 @ y)"
        by (intro rule_B_nomatch) (simp add: Cons)
      moreover from n2 have "rule_B (c # u' @ token_stmt @ x) = c # rule_B (u' @ token_stmt @ x)"
        by (intro rule_B_nomatch) (simp add: Cons)
      ultimately show ?thesis by (simp add: Cons)
    qed
  qed
qed

lemma order_matters_aux:
  "matches_anywhere pattern1 t \<Longrightarrow> rule_B (u @ rule_A t) \<noteq> rule_B (u @ t)"
proof (induction t arbitrary: u)
  case Nil
  then show ?case by (simp add: match_here_pattern1_None token_stmt_facts(1))
next
  case (Cons c cs)
  show ?case
  proof (cases "match_here pattern1 (c # cs)")
    case None
    with Cons.prems have "matches_anywhere pattern1 cs" by simp
    then have "rule_B ((u @ [c]) @ rule_A cs) \<noteq> rule_B ((u @ [c]) @ cs)" by (rule Cons.IH)
    moreover from None have "rule_A (c # cs) = c # rule_A cs" by (rule rule_A_nomatch)
    ultimately show ?thesis by simp
  next
    case (Some rest)
    then have A: "rule_A (c # cs) = replacement1 @ rule_A rest" by (rule rule_A_match)
    from Some have "prefix token_stmt (c # cs)" by (rule match_here_pattern1_prefix)
    then obtain x where x: "c # cs = token_stmt @ x" by (auto simp: prefix_def)
    show ?thesis
      apply (subst A)
      apply (subst x)
      apply (rule diverge)
      done
  qed
qed

lemma rule_A_after_B: "rule_A (rule_B t) = rule_B t"
  by (rule rule_A_absent) (rule rule_B_no_stmt)

lemma guarded_example_idiom:
  "guarded_example =
     idiom (lit ''\<newline>    '') (lit ''\<newline>        '') (lit ''\<newline>        '') (lit ''\<newline>    '') @ []"
  by (simp add: guarded_example_def idiom_def token_stmt_def lit_def)

lemma example_gaps: "gap (lit ''\<newline>    '')" "gap (lit ''\<newline>        '')"
  by (simp_all add: gap_def lit_def is_space_def)

lemma rewrite_guarded_example: "rewrite guarded_example = replacement1"
proof -
  have "rule_A guarded_example = replacement1 @ rule_A []"
    by (subst guarded_example_idiom) (rule rule_A_idiom; rule example_gaps)
  then have "rule_A guarded_example = replacement1" by (simp add: rule_A_Nil)
  moreover have "\<not> contains token_stmt replacement1"
    by (simp add: replacement1_code token_stmt_code)
  ultimately show ?thesis by (simp add: rewrite_def rule_B_absent)
qed

lemma matches_anywhere_here: "match_here p s = Some rest \<Longrightarrow> matches_anywhere p s"
  by (cases s) auto

lemma matches_guarded_example: "matches_anywhere pattern1 guarded_example"
proof -
  have "match_here pattern1 guarded_example = Some []"
    by (subst guarded_example_idiom) (rule idiom_match; rule example_gaps)
  then show ?thesis by (rule matches_anywhere_here)
qed

section \<open>Further facts used by the claims\<close>

lemma guarded_example_changed: "replacement1 \<noteq> guarded_example"
  by (simp add: replacement1_code guarded_example_def lit_def)

lemma matches_pattern2_iff: "matches_anywhere pattern2 c \<longleftrightarrow> contains token_stmt c"
  by (induction c) (simp_all add: match_here_pattern2 token_stmt_facts(1))

lemma contains_prefix: "prefix l s \<Longrightarrow> contains l s"
  by (cases s) auto

lemma contains_guarded_example: "contains token_stmt guarded_example"
proof -
  have "prefix token_stmt guarded_example"
    by (simp add: guarded_example_idiom idiom_def)
  then show ?thesis by (rule contains_prefix)
qed

lemma fix_file_rerun:
  assumes "fix_file w p = (Inr b, w')"
  shows "fix_file w' p = (Inr False, print w' (no_changes_msg p))"
proof -
  from fix_file_ok[OF assms] obtain f c where f: "files w p = Some f" "readable f"
    "fdata f = Some c" "b = (rewrite c \<noteq> c)"
    and w': "w' = (if b
                 then print (w\<lparr>files := (files w)(p \<mapsto> f\<lparr>fdata := Some (rewrite c)\<rparr>),
                              opened_w := opened_w w @ [p]\<rparr>) (fixed_msg p)
                 else print w (no_changes_msg p))"
    by blast
  show ?thesis
  proof (cases b)
    case True
    with w' have "files w' p = Some (f\<lparr>fdata := Some (rewrite c)\<rparr>)"
      by (simp add: print_def)
    with f show ?thesis by (simp add: fix_file_cases rewrite_idem)
  next
    case False
    with w' have "files w' p = Some f" by (simp add: print_def f)
    with f False show ?thesis by (simp add: fix_file_cases)
  qed
qed

lemma fix_file_plain:
  assumes "files w p = Some f" "fdata f = Some c" "readable f" "writable f" "rewrite c \<noteq> c"
  shows "fix_file w p =
    (Inr True, print (w\<lparr>files := (files w)(p \<mapsto> f\<lparr>fdata := Some (rewrite c)\<rparr>),
                        opened_w := opened_w w @ [p]\<rparr>) (fixed_msg p))"
  using assms by (simp add: fix_file_cases)

lemma plain_text_absent:
  "\<not> matches_anywhere pattern1 plain_text" "\<not> matches_anywhere pattern2 plain_text"
  by (simp_all add: plain_text_def lit_def match_here_pattern2 match_here_pattern1_None
      token_stmt_code)

lemma plain_file_sel:
  "fdata (plain_file c) = Some c" "readable (plain_file c)" "writable (plain_file c)"
  by (simp_all add: plain_file_def)

lemma path_exists_dom: "path_exists w p \<longleftrightarrow> p \<in> dom (files w)"
  by (auto simp: path_exists_def)

lemma main_loop_exists:
  "main_loop w n xs = (r, w') \<Longrightarrow> path_exists w' p = path_exists w p"
  by (simp add: path_exists_dom main_loop_dom)

lemma fix_file_raises:
  assumes "files w p = Some f"
    and "\<not> readable f \<or> fdata f = None \<or> (\<exists>c. fdata f = Some c \<and> rewrite c \<noteq> c \<and> \<not> writable f)"
  shows "\<exists>e. fix_file w p = (Inl e, w)"
  using assms by (auto simp: fix_file_cases split: option.splits)

lemma match_spaces_inv:
  "match_here (Spaces1 # Lit l # qs) s = Some rest \<Longrightarrow>
   \<exists>g u. gap g \<and> s = g @ l @ u \<and> match_here qs u = Some rest"
proof (induction s)
  case Nil
  then show ?case by simp
next
  case (Cons c cs)
  then have c: "is_space c" by (simp split: if_splits)
  show ?case
  proof (cases "match_here (Spaces1 # Lit l # qs) cs")
    case (Some r)
    with Cons.prems c have "r = rest" by simp
    with Some Cons.IH obtain g u where "gap g" "cs = g @ l @ u" "match_here qs u = Some rest"
      by blast
    with c have "gap (c # g) \<and> c # cs = (c # g) @ l @ u \<and> match_here qs u = Some rest"
      by (simp add: gap_def)
    then show ?thesis by blast
  next
    case None
    with Cons.prems c have "match_here (Lit l # qs) cs = Some rest" by simp
    then have "prefix l cs" "match_here qs (drop (length l) cs) = Some rest"
      by (simp_all split: if_splits)
    with c have "gap [c] \<and> c # cs = [c] @ l @ drop (length l) cs \<and>
        match_here qs (drop (length l) cs) = Some rest"
      by (auto simp: gap_def prefix_def)
    then show ?thesis by blast
  qed
qed

lemma match_pattern1_inv:
  assumes "match_here pattern1 s = Some rest"
  shows "\<exists>g1 g2 g3 g4. gap g1 \<and> gap g2 \<and> gap g3 \<and> gap g4 \<and> s = idiom g1 g2 g3 g4 @ rest"
proof -
  from assms have "prefix token_stmt s"
    and 0: "match_here (tl pattern1) (drop (length token_stmt) s) = Some rest"
    by (simp_all add: pattern1_eq split: if_splits)
  then obtain s1 where s: "s = token_stmt @ s1" by (auto simp: prefix_def)
  with 0 have "match_here (tl pattern1) s1 = Some rest" by simp
  then have "match_here (Spaces1 # Lit (lit ''if (!token) {'') # Spaces1 #
      Lit (lit ''window.location.href = '/';'') # Spaces1 # Lit (lit ''return;'') #
      Spaces1 # Lit (lit ''}'') # []) s1 = Some rest"
    by (simp add: pattern1_eq)
  from match_spaces_inv[OF this] obtain g1 s2 where 1: "gap g1" "s1 = g1 @ lit ''if (!token) {'' @ s2"
    "match_here (Spaces1 # Lit (lit ''window.location.href = '/';'') # Spaces1 #
       Lit (lit ''return;'') # Spaces1 # Lit (lit ''}'') # []) s2 = Some rest"
    by blast
  from match_spaces_inv[OF 1(3)] obtain g2 s3 where 2: "gap g2"
    "s2 = g2 @ lit ''window.location.href = '/';'' @ s3"
    "match_here (Spaces1 # Lit (lit ''return;'') # Spaces1 # Lit (lit ''}'') # []) s3 = Some rest"
    by blast
  from match_spaces_inv[OF 2(3)] obtain g3 s4 where 3: "gap g3" "s3 = g3 @ lit ''return;'' @ s4"
    "match_here (Spaces1 # Lit (lit ''}'') # []) s4 = Some rest"
    by blast
  from match_spaces_inv[OF 3(3)] obtain g4 u where 4: "gap g4" "s4 = g4 @ lit ''}'' @ u"
    "match_here [] u = Some rest"
    by blast
  from 4(3) have "u = rest" by simp
  with s 1 2 3 4 have "s = idiom g1 g2 g3 g4 @ rest" by (simp add: idiom_def)
  with 1(1) 2(1) 3(1) 4(1) show ?thesis by blast
qed

lemma rule_A_only_head:
  assumes "match_here pattern1 s = None" "\<not> contains token_stmt (tl s)"
  shows "rule_A s = s"
proof (cases s)
  case Nil
  then show ?thesis by (simp add: rule_A_Nil)
next
  case (Cons c cs)
  with assms have "rule_A (c # cs) = c # rule_A cs" "rule_A cs = cs"
    by (simp_all add: rule_A_nomatch rule_A_absent)
  with Cons show ?thesis by simp
qed

lemma billings_join: "path_join JS_DIR (lit ''billings.js'') = billings_path"
  by (simp add: path_join_def JS_DIR_def billings_path_def lit_def suffix_to_prefix)

lemma other_joins:
  "path_join JS_DIR (lit ''chatbot-ai.js'') \<noteq> billings_path"
  "path_join JS_DIR (lit ''device-settings.js'') \<noteq> billings_path"
  "path_join JS_DIR (lit ''flow-builder.js'') \<noteq> billings_path"
  "path_join JS_DIR (lit ''flow-manager.js'') \<noteq> billings_path"
  "path_join JS_DIR (lit ''packages.js'') \<noteq> billings_path"
  "path_join JS_DIR (lit ''profile.js'') \<noteq> billings_path"
  "path_join JS_DIR (lit ''set-stage.js'') \<noteq> billings_path"
  "path_join JS_DIR (lit ''whatsapp-bot.js'') \<noteq> billings_path"
  by (simp_all add: path_join_def JS_DIR_def billings_path_def lit_def suffix_to_prefix)

lemma show_nat_small: "n < 10 \<Longrightarrow> show_nat n = [48 + n]"
  by (subst show_nat.simps) (simp del: show_nat.simps)

lemma show_nat_large:
  "\<not> n < 10 \<Longrightarrow> show_nat n = show_nat (n div 10) @ [48 + n mod 10]"
  by (subst show_nat.simps) (simp del: show_nat.simps)

lemma digits_value_snoc: "digits_value (ds @ [d]) = 10 * digits_value ds + (d - 48)"
  by (simp add: digits_value_def)

lemma digits_value_show_nat: "digits_value (show_nat n) = n"
proof (induction n rule: show_nat.induct)
  case (1 n)
  show ?case
  proof (cases "n < 10")
    case True
    show ?thesis by (simp only: show_nat_small[OF True]) (simp add: digits_value_def)
  next
    case False
    with 1 have "digits_value (show_nat (n div 10)) = n div 10" by blast
    then show ?thesis
      by (simp only: show_nat_large[OF False] digits_value_snoc) simp
  qed
qed

lemma show_nat_digits: "show_nat n \<noteq> [] \<and> list_all (\<lambda>d. 48 \<le> d \<and> d \<le> 57) (show_nat n)"
proof (induction n rule: show_nat.induct)
  case (1 n)
  show ?case
  proof (cases "n < 10")
    case True
    from True show ?thesis by (simp only: show_nat_small[OF True]) simp
  next
    case False
    with 1 have "list_all (\<lambda>d. 48 \<le> d \<and> d \<le> 57) (show_nat (n div 10))" by blast
    moreover have "n mod 10 \<le> 9" by simp
    ultimately have "list_all (\<lambda>d. 48 \<le> d \<and> d \<le> 57) (show_nat (n div 10) @ [48 + n mod 10])"
      by (simp del: show_nat.simps)
    then show ?thesis by (simp only: show_nat_large[OF False]) (simp del: show_nat.simps)
  qed
qed

lemma msg_not_fixed_prefix:
  "\<not> prefix (lit ''\<newline>Fixed '') (fixed_msg p)"
  "\<not> prefix (lit ''\<newline>Fixed '') (no_changes_msg p)"
  "\<not> prefix (lit ''\<newline>Fixed '') (not_found_msg p)"
  by (simp_all add: fixed_msg_def no_changes_msg_def not_found_msg_def lit_def)

lemma main_loop_console_lines:
  "main_loop w n xs = (r, w') \<Longrightarrow>
   \<exists>lines. console w' = console w @ lines \<and>
     (\<forall>l\<in>set lines. \<not> prefix (lit ''\<newline>Fixed '') l)"
proof (induction xs arbitrary: w n)
  case Nil
  then show ?case by simp
next
  case (Cons x xs)
  let ?p = "path_join JS_DIR x"
  show ?case
  proof (cases "path_exists w ?p")
    case False
    with Cons.prems have "main_loop (print w (not_found_msg ?p)) n xs = (r, w')" by simp
    from Cons.IH[OF this] obtain lines where
      "console w' = console w @ not_found_msg ?p # lines"
      "\<forall>l\<in>set lines. \<not> prefix (lit ''\<newline>Fixed '') l"
      by (auto simp: print_def)
    then have "console w' = console w @ (not_found_msg ?p # lines) \<and>
         (\<forall>l\<in>set (not_found_msg ?p # lines). \<not> prefix (lit ''\<newline>Fixed '') l)"
      by (simp add: msg_not_fixed_prefix)
    then show ?thesis by blast
  next
    case True
    obtain r1 w1 where f: "fix_file w ?p = (r1, w1)" by force
    from fix_file_console[OF f] obtain l1 where l1: "console w1 = console w @ l1"
      "\<forall>l\<in>set l1. \<not> prefix (lit ''\<newline>Fixed '') l"
      by (elim disjE) (auto simp: msg_not_fixed_prefix)
    show ?thesis
    proof (cases r1)
      case (Inl e)
      with Cons.prems True f have "w' = w1" by simp
      with l1 show ?thesis by blast
    next
      case (Inr b)
      with Cons.prems True f have "main_loop w1 (if b then n + 1 else n) xs = (r, w')" by simp
      from Cons.IH[OF this] obtain l2 where "console w' = console w1 @ l2"
        "\<forall>l\<in>set l2. \<not> prefix (lit ''\<newline>Fixed '') l" by blast
      with l1 have "console w' = console w @ (l1 @ l2) \<and>
          (\<forall>l\<in>set (l1 @ l2). \<not> prefix (lit ''\<newline>Fixed '') l)" by auto
      then show ?thesis by blast
    qed
  qed
qed

lemma main_loop_opened:
  "main_loop w n xs = (Inr m, w') \<Longrightarrow> m + length (opened_w w) = n + length (opened_w w')"
proof (induction xs arbitrary: w n)
  case Nil
  then show ?case by simp
next
  case (Cons x xs)
  let ?p = "path_join JS_DIR x"
  show ?case
  proof (cases "path_exists w ?p")
    case False
    with Cons.prems have "main_loop (print w (not_found_msg ?p)) n xs = (Inr m, w')" by simp
    from Cons.IH[OF this] show ?thesis by (simp add: print_def)
  next
    case True
    obtain r1 w1 where f: "fix_file w ?p = (r1, w1)" by force
    with Cons.prems True obtain b where r1: "r1 = Inr b" by (cases r1) auto
    with Cons.prems True f have run: "main_loop w1 (if b then n + 1 else n) xs = (Inr m, w')"
      by simp
    from f r1 have "length (opened_w w1) = length (opened_w w) + (if b then 1 else 0)"
      by (auto simp: fix_file_cases print_def split: option.splits if_splits)
    with Cons.IH[OF run] show ?thesis by (simp split: if_splits)
  qed
qed

lemma matches_pattern1_contains: "matches_anywhere pattern1 t \<Longrightarrow> contains token_stmt t"
proof (induction t)
  case Nil
  then show ?case by (simp add: match_here_pattern1_None token_stmt_facts(1))
next
  case (Cons c cs)
  show ?case
  proof (cases "prefix token_stmt (c # cs)")
    case True
    then show ?thesis by simp
  next
    case False
    then have "match_here pattern1 (c # cs) = None" by (rule match_here_pattern1_None)
    with Cons show ?thesis by simp
  qed
qed

lemma whatsapp_join: "path_join JS_DIR (lit ''whatsapp-bot.js'') = whatsapp_path"
  by (simp add: path_join_def JS_DIR_def whatsapp_path_def lit_def suffix_to_prefix)

lemma middle_joins:
  "path_join JS_DIR (lit ''chatbot-ai.js'') \<noteq> whatsapp_path"
  "path_join JS_DIR (lit ''device-settings.js'') \<noteq> whatsapp_path"
  "path_join JS_DIR (lit ''flow-builder.js'') \<noteq> whatsapp_path"
  "path_join JS_DIR (lit ''flow-manager.js'') \<noteq> whatsapp_path"
  "path_join JS_DIR (lit ''packages.js'') \<noteq> whatsapp_path"
  "path_join JS_DIR (lit ''profile.js'') \<noteq> whatsapp_path"
  "path_join JS_DIR (lit ''set-stage.js'') \<noteq> whatsapp_path"
  "billings_path \<noteq> whatsapp_path"
  by (simp_all add: path_join_def JS_DIR_def whatsapp_path_def billings_path_def lit_def
      suffix_to_prefix)

lemma files_twist:
  "m(whatsapp_path \<mapsto> a, billings_path \<mapsto> b) = m(billings_path \<mapsto> b, whatsapp_path \<mapsto> a)"
  by (rule fun_upd_twist) (rule not_sym, rule middle_joins(8))

lemma notice_fold: "10007 # lit '' File not found: '' @ p = not_found_msg p"
  by (simp add: not_found_msg_def)

lemma two_file_world_end_alt:
  "two_file_world_end =
     \<lparr>files = [billings_path \<mapsto> plain_file replacement1,
               whatsapp_path \<mapsto> plain_file replacement1],
      console =
        [fixed_msg billings_path,
         not_found_msg (path_join JS_DIR (lit ''chatbot-ai.js'')),
         not_found_msg (path_join JS_DIR (lit ''device-settings.js'')),
         not_found_msg (path_join JS_DIR (lit ''flow-builder.js'')),
         not_found_msg (path_join JS_DIR (lit ''flow-manager.js'')),
         not_found_msg (path_join JS_DIR (lit ''packages.js'')),
         not_found_msg (path_join JS_DIR (lit ''profile.js'')),
         not_found_msg (path_join JS_DIR (lit ''set-stage.js'')),
         fixed_msg whatsapp_path],
      opened_w = [billings_path, whatsapp_path]\<rparr>"
  by (simp add: two_file_world_end_def fixed_msg_def not_found_msg_def path_join_def JS_DIR_def
      billings_path_def whatsapp_path_def lit_def suffix_to_prefix)

lemma two_file_first:
  "main_loop two_file_world 0 [lit ''billings.js''] = (Inr 1, two_file_world_1)"
  by (simp add: two_file_world_def two_file_world_1_def path_exists_def billings_join
      middle_joins fix_file_cases plain_file_def rewrite_guarded_example guarded_example_changed
      print_def files_twist)

lemma two_file_rest:
  "main_loop
     (two_file_world_1\<lparr>console := console two_file_world_1 @
        [10007 # lit '' File not found: '' @ path_join JS_DIR (lit ''chatbot-ai.js'')]\<rparr>)
     1 (drop 2 files_to_fix) = (Inr 2, two_file_world_end)"
  by (simp add: files_to_fix_def two_file_world_1_def two_file_world_end_alt path_exists_def
      whatsapp_join middle_joins other_joins notice_fold fix_file_cases plain_file_def
      rewrite_guarded_example guarded_example_changed print_def files_twist)

lemma two_file_loop:
  "main_loop two_file_world 0 files_to_fix = (Inr 2, two_file_world_end)"
  by (simp add: files_to_fix_def two_file_world_def two_file_world_end_alt path_exists_def
      billings_join whatsapp_join middle_joins other_joins fix_file_cases plain_file_def
      rewrite_guarded_example guarded_example_changed print_def files_twist)

lemma summary_msg_2: "summary_msg 2 = lit ''\<newline>Fixed 2 files''"
  by (simp add: summary_msg_def lit_def)

lemma main_two_file_world: "main two_file_world = (Inr (), two_file_world_final)"
  by (simp add: main_def run_def two_file_loop two_file_world_final_def print_def summary_msg_2)

section \<open>The claims\<close>

text \<open>
  C1. Applying the two rules twice gives the same text as applying them once, and a
  second call of \<open>fix_file\<close> on a file that a first call has processed reports no change.
\<close>

theorem rewrite_idempotent:
  "rewrite (rewrite c) = rewrite c \<and>
   (fix_file w p = (Inr b, w') \<longrightarrow>
      fix_file w' p = (Inr False, print w' (no_changes_msg p)))"
  by (simp add: rewrite_idem fix_file_rerun)

theorem rewrite_idempotent_witness:
  "rewrite (rewrite guarded_example) = rewrite guarded_example \<and>
   fst (fix_file (one_file_world billings_path (plain_file guarded_example)) billings_path)
     = Inr True \<and>
   fst (fix_file (snd (fix_file (one_file_world billings_path (plain_file guarded_example))
                     billings_path)) billings_path) = Inr False"
proof -
  let ?w = "one_file_world billings_path (plain_file guarded_example)"
  obtain w' where run1: "fix_file ?w billings_path = (Inr True, w')"
    by (simp add: fix_file_cases one_file_world_def plain_file_def rewrite_guarded_example
        guarded_example_changed)
  from rewrite_idempotent[of guarded_example ?w billings_path True w'] run1
  show ?thesis by simp
qed

text \<open>
  C2. On every text in which pattern 1 matches somewhere, running rule B before rule A
  gives a different text than running rule A before rule B: rule B leaves nothing for
  rule A to match. \<open>fix_file\<close> writes the rule-A-first text to the file, not the other one.
\<close>

theorem rule_order_matters:
  "matches_anywhere pattern1 t \<Longrightarrow>
   rule_A (rule_B t) \<noteq> rule_B (rule_A t) \<and> rule_A (rule_B t) = rule_B t \<and>
   rewrite t = rule_B (rule_A t) \<and>
   (files w p = Some f \<longrightarrow> fdata f = Some t \<longrightarrow> readable f \<longrightarrow> writable f \<longrightarrow>
      (\<exists>w'. fix_file w p = (Inr True, w') \<and>
            file_content w' p = Some (Some (rule_B (rule_A t))) \<and>
            file_content w' p \<noteq> Some (Some (rule_A (rule_B t)))))"
proof -
  assume m: "matches_anywhere pattern1 t"
  from order_matters_aux[OF m, of "[]"] have ne: "rule_A (rule_B t) \<noteq> rule_B (rule_A t)"
    by (simp add: rule_A_after_B)
  have ab: "rule_A (rule_B t) = rule_B t" by (rule rule_A_after_B)
  have rw: "rewrite t = rule_B (rule_A t)" by (simp add: rewrite_def)
  from m have "contains token_stmt t" by (rule matches_pattern1_contains)
  with rewrite_no_stmt[of t] have ch: "rewrite t \<noteq> t" by auto
  have onfile: "\<exists>w'. fix_file w p = (Inr True, w') \<and>
            file_content w' p = Some (Some (rule_B (rule_A t))) \<and>
            file_content w' p \<noteq> Some (Some (rule_A (rule_B t)))"
    if f: "files w p = Some f" "fdata f = Some t" "readable f" "writable f"
  proof -
    let ?w' = "print (w\<lparr>files := (files w)(p \<mapsto> f\<lparr>fdata := Some (rewrite t)\<rparr>),
                        opened_w := opened_w w @ [p]\<rparr>) (fixed_msg p)"
    from f ch have "fix_file w p = (Inr True, ?w')" by (rule fix_file_plain)
    moreover have "file_content ?w' p = Some (Some (rule_B (rule_A t)))"
      by (simp add: file_content_def print_def rw)
    moreover from this ne have "file_content ?w' p \<noteq> Some (Some (rule_A (rule_B t)))"
      by simp
    ultimately show ?thesis by blast
  qed
  from ne ab rw onfile show ?thesis by blast
qed

theorem rule_order_matters_witness:
  "matches_anywhere pattern1 guarded_example \<and>
   rule_B (rule_A guarded_example) = replacement1 \<and>
   rule_A (rule_B guarded_example) \<noteq> replacement1 \<and>
   fst (fix_file billings_world billings_path) = Inr True \<and>
   file_content (snd (fix_file billings_world billings_path)) billings_path
     = Some (Some replacement1)"
proof -
  have r: "rule_B (rule_A guarded_example) = replacement1"
    using rewrite_guarded_example by (simp add: rewrite_def)
  have f: "files billings_world billings_path = Some (plain_file guarded_example)"
    by (simp add: billings_world_def one_file_world_def)
  from rule_order_matters[OF matches_guarded_example, of billings_world billings_path
      "plain_file guarded_example"] f
  obtain w' where "rule_A (rule_B guarded_example) \<noteq> rule_B (rule_A guarded_example)"
    "fix_file billings_world billings_path = (Inr True, w')"
    "file_content w' billings_path = Some (Some (rule_B (rule_A guarded_example)))"
    by (auto simp: plain_file_sel)
  with r matches_guarded_example show ?thesis by simp
qed

text \<open>
  C3. A run that processes the whole list of nine names ends by printing the line
  \<open>Fixed <N> files\<close> after an empty line, where the decimal digits \<open><N>\<close> denote the
  number of listed paths whose file content after the run differs from the content before
  it, which is also the number of files the run opened for writing. No other line of the
  run starts like the summary line.
\<close>

theorem summary_counts_changed_files:
  "main w = (Inr u, w') \<Longrightarrow>
   length files_to_fix = 9 \<and>
   (\<exists>lines ds.
      console w' = console w @ lines @ [lit ''\<newline>Fixed '' @ ds @ lit '' files''] \<and>
      ds \<noteq> [] \<and> list_all (\<lambda>d. 48 \<le> d \<and> d \<le> 57) ds \<and>
      digits_value ds = length (filter (\<lambda>p. file_content w' p \<noteq> file_content w p)
                                   (map (path_join JS_DIR) files_to_fix)) \<and>
      digits_value ds + length (opened_w w) = length (opened_w w') \<and>
      (\<forall>l\<in>set lines. \<not> prefix (lit ''\<newline>Fixed '') l))"
proof -
  assume m: "main w = (Inr u, w')"
  then obtain n w1 where loop: "main_loop w 0 files_to_fix = (Inr n, w1)"
    and w': "w' = print w1 (summary_msg n)"
    by (auto simp: main_def run_def split: prod.splits sum.splits)
  from main_loop_count[OF paths_distinct loop]
  have "n = length (filter (\<lambda>x. file_content w1 (path_join JS_DIR x) \<noteq>
                               file_content w (path_join JS_DIR x)) files_to_fix)"
    by simp
  also have "\<dots> = length (filter (\<lambda>p. file_content w' p \<noteq> file_content w p)
                                (map (path_join JS_DIR) files_to_fix))"
    by (simp add: w' filter_map comp_def)
  finally have n: "digits_value (show_nat n) =
      length (filter (\<lambda>p. file_content w' p \<noteq> file_content w p)
                (map (path_join JS_DIR) files_to_fix))"
    by (simp only: digits_value_show_nat)
  from main_loop_opened[OF loop] have o: "digits_value (show_nat n) + length (opened_w w) =
      length (opened_w w')"
    by (simp add: w' print_def digits_value_show_nat del: show_nat.simps)
  from main_loop_console_lines[OF loop] obtain lines where
    l: "console w1 = console w @ lines" "\<forall>l\<in>set lines. \<not> prefix (lit ''\<newline>Fixed '') l"
    by blast
  with w' have c: "console w' = console w @ lines @
      [lit ''\<newline>Fixed '' @ show_nat n @ lit '' files'']"
    by (simp add: print_def summary_msg_def del: show_nat.simps)
  from show_nat_digits[of n] have d: "show_nat n \<noteq> []"
    "list_all (\<lambda>d. 48 \<le> d \<and> d \<le> 57) (show_nat n)" by blast+
  from c d n o l(2) have "\<exists>lines ds.
      console w' = console w @ lines @ [lit ''\<newline>Fixed '' @ ds @ lit '' files''] \<and>
      ds \<noteq> [] \<and> list_all (\<lambda>d. 48 \<le> d \<and> d \<le> 57) ds \<and>
      digits_value ds = length (filter (\<lambda>p. file_content w' p \<noteq> file_content w p)
                                   (map (path_join JS_DIR) files_to_fix)) \<and>
      digits_value ds + length (opened_w w) = length (opened_w w') \<and>
      (\<forall>l\<in>set lines. \<not> prefix (lit ''\<newline>Fixed '') l)"
    by (intro exI[of _ lines] exI[of _ "show_nat n"] conjI)
  moreover have "length files_to_fix = 9" by (simp add: files_to_fix_def)
  ultimately show ?thesis by (rule conjI[rotated])
qed

theorem summary_counts_changed_files_witness:
  "main two_file_world = (Inr (), two_file_world_final) \<and>
   last (console two_file_world_final) = lit ''\<newline>Fixed 2 files'' \<and>
   length (filter (\<lambda>p. file_content two_file_world_final p \<noteq> file_content two_file_world p)
             (map (path_join JS_DIR) files_to_fix)) = 2 \<and>
   length (opened_w two_file_world_final) = 2"
proof -
  have la: "last (console two_file_world_final) = lit ''\<newline>Fixed 2 files''"
    by (simp add: two_file_world_final_def)
  have ow: "length (opened_w two_file_world) = 0"
    by (simp add: two_file_world_def)
  from summary_counts_changed_files[OF main_two_file_world] obtain lines ds where
    c: "console two_file_world_final = console two_file_world @ lines @
          [lit ''\<newline>Fixed '' @ ds @ lit '' files'']"
    and v: "digits_value ds =
          length (filter (\<lambda>p. file_content two_file_world_final p \<noteq> file_content two_file_world p)
             (map (path_join JS_DIR) files_to_fix))"
    and o: "digits_value ds + length (opened_w two_file_world) =
          length (opened_w two_file_world_final)"
    by blast
  from c have "console two_file_world_final = (console two_file_world @ lines) @
          [lit ''\<newline>Fixed '' @ ds @ lit '' files'']" by simp
  then have "last (console two_file_world_final) = lit ''\<newline>Fixed '' @ ds @ lit '' files''"
    by (simp only: last_snoc)
  with la have "lit ''\<newline>Fixed '' @ ds @ lit '' files'' = lit ''\<newline>Fixed '' @ [50] @ lit '' files''"
    by (simp add: lit_def)
  then have "ds = [50]" by (simp only: same_append_eq append_same_eq)
  then have "digits_value ds = 2" by (simp add: digits_value_def)
  with v o ow la main_two_file_world show ?thesis by simp
qed

text \<open>
  C4. On an existing file that can be read and decoded, and that can be written when its
  text changes, \<open>fix_file\<close> returns, and it opens the file for writing exactly when the
  text after the two rules differs from the text read: then the path is added once to the
  list of files opened for writing and the file holds the new text; otherwise that list and
  all files stay as they are. In both cases the call prints exactly one line.
\<close>

theorem write_iff_changed:
  "files w p = Some f \<Longrightarrow> readable f \<Longrightarrow> fdata f = Some c \<Longrightarrow> writable f \<or> rewrite c = c \<Longrightarrow>
   \<exists>w'. fix_file w p = (Inr (rewrite c \<noteq> c), w') \<and>
      opened_w w' = opened_w w @ (if rewrite c \<noteq> c then [p] else []) \<and>
      files w' = (if rewrite c \<noteq> c then (files w)(p \<mapsto> f\<lparr>fdata := Some (rewrite c)\<rparr>)
                  else files w) \<and>
      console w' = console w @ [if rewrite c \<noteq> c then fixed_msg p else no_changes_msg p]"
  by (cases "rewrite c = c") (simp_all add: fix_file_cases print_def)

theorem write_iff_changed_witness:
  "fix_file billings_world billings_path =
     (Inr True,
      \<lparr>files = [billings_path \<mapsto> plain_file replacement1],
       console = [fixed_msg billings_path], opened_w = [billings_path]\<rparr>) \<and>
   fix_file (one_file_world billings_path (plain_file plain_text)) billings_path =
     (Inr False,
      \<lparr>files = [billings_path \<mapsto> plain_file plain_text],
       console = [no_changes_msg billings_path], opened_w = []\<rparr>)"
proof -
  let ?v = "one_file_world billings_path (plain_file plain_text)"
  have c: "rewrite plain_text = plain_text"
    using plain_text_absent(2) by (simp add: matches_pattern2_iff rewrite_absent)
  have g: "rewrite guarded_example \<noteq> guarded_example"
    by (simp add: rewrite_guarded_example guarded_example_changed)
  have f1: "files billings_world billings_path = Some (plain_file guarded_example)"
    by (simp add: billings_world_def one_file_world_def)
  have f2: "files ?v billings_path = Some (plain_file plain_text)"
    by (simp add: one_file_world_def)
  from write_iff_changed[OF f1 plain_file_sel(2) plain_file_sel(1)] g
  obtain w1 where 1: "fix_file billings_world billings_path = (Inr True, w1)"
    "opened_w w1 = opened_w billings_world @ [billings_path]"
    "files w1 = (files billings_world)(billings_path \<mapsto>
        (plain_file guarded_example)\<lparr>fdata := Some (rewrite guarded_example)\<rparr>)"
    "console w1 = console billings_world @ [fixed_msg billings_path]"
    by (auto simp: plain_file_sel)
  from write_iff_changed[OF f2 plain_file_sel(2) plain_file_sel(1)] c
  obtain w2 where 2: "fix_file ?v billings_path = (Inr False, w2)"
    "opened_w w2 = opened_w ?v" "files w2 = files ?v"
    "console w2 = console ?v @ [no_changes_msg billings_path]"
    by (auto simp: plain_file_sel)
  from 1(2-4) have "w1 = \<lparr>files = [billings_path \<mapsto> plain_file replacement1],
       console = [fixed_msg billings_path], opened_w = [billings_path]\<rparr>"
    by (simp add: billings_world_def one_file_world_def plain_file_def rewrite_guarded_example)
  moreover from 2(2-4) have "w2 = \<lparr>files = [billings_path \<mapsto> plain_file plain_text],
       console = [no_changes_msg billings_path], opened_w = []\<rparr>"
    by (simp add: one_file_world_def)
  ultimately show ?thesis using 1(1) 2(1) by simp
qed



text \<open>
  C6. When the path of a configured name does not exist, the loop does not raise: it
  prints the line \<open>File not found: <path>\<close> after the cross mark and nothing else, leaves
  the files and the count as they are, and goes on with the names that follow, wherever in
  the list the name stands; the line stays in the output whatever happens with those names.
\<close>

theorem not_found_continues:
  "main_loop w n pre = (Inr k, w1) \<Longrightarrow> \<not> path_exists w (path_join JS_DIR x) \<Longrightarrow>
   main_loop w n (pre @ [x]) =
     (Inr k, w1\<lparr>console := console w1 @
                 [10007 # lit '' File not found: '' @ path_join JS_DIR x]\<rparr>) \<and>
   main_loop w n (pre @ x # post) =
     main_loop (w1\<lparr>console := console w1 @
                 [10007 # lit '' File not found: '' @ path_join JS_DIR x]\<rparr>) k post \<and>
   (\<exists>lines. console (snd (main_loop w n (pre @ x # post))) =
      console w1 @ (10007 # lit '' File not found: '' @ path_join JS_DIR x) # lines)"
proof -
  let ?p = "path_join JS_DIR x"
  let ?w2 = "w1\<lparr>console := console w1 @ [10007 # lit '' File not found: '' @ ?p]\<rparr>"
  assume pre: "main_loop w n pre = (Inr k, w1)" and ne: "\<not> path_exists w ?p"
  from pre ne have ne1: "\<not> path_exists w1 ?p" by (simp add: main_loop_exists)
  have pr: "print w1 (not_found_msg ?p) = ?w2" by (simp add: print_def not_found_msg_def)
  from pre ne1 pr have 1: "main_loop w n (pre @ [x]) = (Inr k, ?w2)"
    by (simp add: main_loop_append)
  from pre ne1 pr have 2: "main_loop w n (pre @ x # post) = main_loop ?w2 k post"
    by (simp add: main_loop_append)
  obtain r w3 where 3: "main_loop ?w2 k post = (r, w3)" by force
  from main_loop_console[OF 3] obtain lines where "console w3 = console ?w2 @ lines" by blast
  with 2 3 have "console (snd (main_loop w n (pre @ x # post))) =
      console w1 @ (10007 # lit '' File not found: '' @ ?p) # lines" by simp
  with 1 2 show ?thesis by blast
qed

theorem not_found_continues_witness:
  "main_loop two_file_world 0 [lit ''billings.js''] = (Inr 1, two_file_world_1) \<and>
   \<not> path_exists two_file_world (path_join JS_DIR (lit ''chatbot-ai.js'')) \<and>
   main_loop two_file_world 0 [lit ''billings.js'', lit ''chatbot-ai.js''] =
     (Inr 1, two_file_world_1\<lparr>console :=
        [fixed_msg billings_path,
         10007 # lit '' File not found: frontend/assets/js/chatbot-ai.js'']\<rparr>) \<and>
   main_loop two_file_world 0 files_to_fix = (Inr 2, two_file_world_end)"
proof -
  have ne: "\<not> path_exists two_file_world (path_join JS_DIR (lit ''chatbot-ai.js''))"
    by (simp add: path_exists_def two_file_world_def other_joins middle_joins)
  have l: "files_to_fix = [lit ''billings.js''] @ lit ''chatbot-ai.js'' # drop 2 files_to_fix"
    by (simp add: files_to_fix_def)
  note t = not_found_continues[OF two_file_first ne, of "drop 2 files_to_fix"]
  from t have "main_loop two_file_world 0 ([lit ''billings.js''] @ [lit ''chatbot-ai.js'']) =
     (Inr 1, two_file_world_1\<lparr>console := console two_file_world_1 @
        [10007 # lit '' File not found: '' @ path_join JS_DIR (lit ''chatbot-ai.js'')]\<rparr>)"
    by (rule conjunct1)
  then have a: "main_loop two_file_world 0 [lit ''billings.js'', lit ''chatbot-ai.js''] =
     (Inr 1, two_file_world_1\<lparr>console :=
        [fixed_msg billings_path,
         10007 # lit '' File not found: frontend/assets/js/chatbot-ai.js'']\<rparr>)"
    by (simp add: two_file_world_1_def path_join_def JS_DIR_def lit_def suffix_to_prefix)
  from t have "main_loop two_file_world 0
       ([lit ''billings.js''] @ lit ''chatbot-ai.js'' # drop 2 files_to_fix) =
     main_loop (two_file_world_1\<lparr>console := console two_file_world_1 @
        [10007 # lit '' File not found: '' @ path_join JS_DIR (lit ''chatbot-ai.js'')]\<rparr>)
       1 (drop 2 files_to_fix)"
    by blast
  then have b: "main_loop two_file_world 0 files_to_fix = (Inr 2, two_file_world_end)"
    by (simp only: l[symmetric] two_file_rest)
  from two_file_first ne a b show ?thesis by (intro conjI)
qed

text \<open>
  C7. When, on an existing file, the read fails, the content does not decode, or the
  changed text cannot be written, \<open>fix_file\<close> raises and the run ends with that error: the
  world is the one in which the failing call started, so no later name has been
  processed, and no summary line has been printed.
\<close>

theorem failure_aborts_run:
  "files_to_fix = pre @ x # post \<Longrightarrow> main_loop w 0 pre = (Inr k, w1) \<Longrightarrow>
   files w1 (path_join JS_DIR x) = Some f \<Longrightarrow>
   \<not> readable f \<or> fdata f = None \<or> (\<exists>c. fdata f = Some c \<and> rewrite c \<noteq> c \<and> \<not> writable f) \<Longrightarrow>
   \<exists>e. fix_file w1 (path_join JS_DIR x) = (Inl e, w1) \<and> main w = (Inl e, w1) \<and>
       (\<exists>lines. console w1 = console w @ lines \<and> (\<forall>l\<in>set lines. \<forall>j. l \<noteq> summary_msg j))"
proof -
  assume l: "files_to_fix = pre @ x # post" and pre: "main_loop w 0 pre = (Inr k, w1)"
    and ex: "files w1 (path_join JS_DIR x) = Some f"
    and bad: "\<not> readable f \<or> fdata f = None \<or>
      (\<exists>c. fdata f = Some c \<and> rewrite c \<noteq> c \<and> \<not> writable f)"
  from fix_file_raises[OF ex bad] obtain e
    where f: "fix_file w1 (path_join JS_DIR x) = (Inl e, w1)" by blast
  from ex have "path_exists w1 (path_join JS_DIR x)" by (simp add: path_exists_def)
  with pre f have "main_loop w 0 (pre @ x # post) = (Inl e, w1)"
    by (simp add: main_loop_append)
  with l have "main w = (Inl e, w1)" by (simp add: main_def run_def)
  with f main_loop_console[OF pre] show ?thesis by blast
qed

theorem failure_aborts_run_witness:
  "main (one_file_world billings_path locked_file) =
     (Inl IOFailure, one_file_world billings_path locked_file) \<and>
   console (one_file_world billings_path locked_file) = []"
proof -
  let ?w = "one_file_world billings_path locked_file"
  have p: "path_join JS_DIR (lit ''billings.js'') = billings_path"
    by (simp add: path_join_def JS_DIR_def billings_path_def lit_def suffix_to_prefix)
  have 1: "files_to_fix = [] @ lit ''billings.js'' # tl files_to_fix"
    by (simp add: files_to_fix_def)
  have 2: "main_loop ?w 0 [] = (Inr 0, ?w)" by simp
  have 3: "files ?w (path_join JS_DIR (lit ''billings.js'')) = Some locked_file"
    by (simp add: p one_file_world_def)
  have 4: "\<not> readable locked_file \<or> fdata locked_file = None \<or>
      (\<exists>c. fdata locked_file = Some c \<and> rewrite c \<noteq> c \<and> \<not> writable locked_file)"
    by (simp add: locked_file_def)
  have 5: "fix_file ?w (path_join JS_DIR (lit ''billings.js'')) = (Inl IOFailure, ?w)"
    by (simp add: p fix_file_cases one_file_world_def locked_file_def)
  from failure_aborts_run[OF 1 2 3 4] 5 show ?thesis by (simp add: one_file_world_def)
qed

text \<open>
  C8, as stated, fails: with no whitespace between the two statements, and with the space
  before the brace left out, pattern 1 does not match and rule A leaves the text as it is.
\<close>

theorem rule_A_whitespace_counterexample:
  "\<not> matches_anywhere pattern1 adjacent_example \<and> rule_A adjacent_example = adjacent_example \<and>
   \<not> matches_anywhere pattern1 tight_brace_example \<and>
   rule_A tight_brace_example = tight_brace_example"
proof -
  have 1: "match_here pattern1 adjacent_example = None"
    by (simp add: pattern1_def adjacent_example_def lit_def is_space_def)
  have 2: "\<not> contains token_stmt (tl adjacent_example)"
    by (simp add: adjacent_example_def token_stmt_code lit_def)
  have 3: "match_here pattern1 tight_brace_example = None"
    by (simp add: pattern1_def tight_brace_example_def lit_def is_space_def)
  have 4: "\<not> contains token_stmt (tl tight_brace_example)"
    by (simp add: tight_brace_example_def token_stmt_code lit_def)
  have 5: "\<not> matches_anywhere pattern1 s"
    if "match_here pattern1 s = None" "\<not> contains token_stmt (tl s)" for s
  proof (cases s)
    case Nil
    with that show ?thesis by simp
  next
    case (Cons c cs)
    have "\<not> matches_anywhere pattern1 t" if "\<not> contains token_stmt t" for t
      using that by (induction t) (auto simp: match_here_pattern1_None token_stmt_facts(1))
    with that Cons show ?thesis by simp
  qed
  from 1 2 have a: "\<not> matches_anywhere pattern1 adjacent_example" by (rule 5)
  from 1 2 have b: "rule_A adjacent_example = adjacent_example" by (rule rule_A_only_head)
  from 3 4 have c: "\<not> matches_anywhere pattern1 tight_brace_example" by (rule 5)
  from 3 4 have d: "rule_A tight_brace_example = tight_brace_example" by (rule rule_A_only_head)
  from a b c d show ?thesis by (intro conjI)
qed

text \<open>
  C8, amended. Pattern 1 matches at the start of a text exactly when the text starts with
  the idiom in which each of the four stretches (after the declaration, after the opening
  brace, after the redirect, after \<open>return;\<close>) is one or more whitespace characters and
  everything else is as written, single spaces inside the statements included; on such a
  text rule A puts its replacement in the place of the idiom.
\<close>

theorem rule_A_matches_idiom:
  "(match_here pattern1 s = Some rest \<longleftrightarrow>
      (\<exists>g1 g2 g3 g4. gap g1 \<and> gap g2 \<and> gap g3 \<and> gap g4 \<and> s = idiom g1 g2 g3 g4 @ rest)) \<and>
   (gap g1 \<longrightarrow> gap g2 \<longrightarrow> gap g3 \<longrightarrow> gap g4 \<longrightarrow>
      rule_A (idiom g1 g2 g3 g4 @ rest) = replacement1 @ rule_A rest)"
proof (intro conjI iffI impI)
  assume "match_here pattern1 s = Some rest"
  then show "\<exists>g1 g2 g3 g4. gap g1 \<and> gap g2 \<and> gap g3 \<and> gap g4 \<and> s = idiom g1 g2 g3 g4 @ rest"
    by (rule match_pattern1_inv)
next
  assume "\<exists>g1 g2 g3 g4. gap g1 \<and> gap g2 \<and> gap g3 \<and> gap g4 \<and> s = idiom g1 g2 g3 g4 @ rest"
  then obtain h1 h2 h3 h4 where h: "gap h1" "gap h2" "gap h3" "gap h4"
    and s: "s = idiom h1 h2 h3 h4 @ rest" by blast
  from h have "match_here pattern1 (idiom h1 h2 h3 h4 @ rest) = Some rest" by (rule idiom_match)
  with s show "match_here pattern1 s = Some rest" by simp
next
  assume "gap g1" "gap g2" "gap g3" "gap g4"
  then show "rule_A (idiom g1 g2 g3 g4 @ rest) = replacement1 @ rule_A rest"
    by (rule rule_A_idiom)
qed

theorem rule_A_matches_idiom_witness:
  "gap (lit ''\<newline>    '') \<and> gap (lit ''\<newline>        '') \<and>
   match_here pattern1 guarded_example = Some [] \<and>
   rule_A guarded_example = replacement1"
proof -
  let ?a = "lit ''\<newline>    ''" and ?b = "lit ''\<newline>        ''"
  note t = rule_A_matches_idiom[of "idiom ?a ?b ?b ?a @ []" "[]" ?a ?b ?b ?a]
  have e: "\<exists>g1 g2 g3 g4. gap g1 \<and> gap g2 \<and> gap g3 \<and> gap g4 \<and>
      idiom ?a ?b ?b ?a @ [] = idiom g1 g2 g3 g4 @ []"
    using example_gaps by blast
  from t e have "match_here pattern1 (idiom ?a ?b ?b ?a @ []) = Some []" by (simp only:)
  moreover from t example_gaps have "rule_A (idiom ?a ?b ?b ?a @ []) = replacement1 @ rule_A []"
    by (simp only:)
  ultimately show ?thesis
    by (simp add: guarded_example_idiom rule_A_Nil example_gaps)
qed



text \<open>
  C10. The text that the two rules produce never contains the statement
  \<open>const token = localStorage.getItem('auth_token');\<close>. So a text that contains it is
  changed, and \<open>fix_file\<close> on a readable and writable file with such a content writes the
  new text and reports the file as fixed.
\<close>

theorem no_token_stmt_left:
  "\<not> contains token_stmt (rewrite c) \<and>
   (contains token_stmt c \<longrightarrow>
      rewrite c \<noteq> c \<and>
      (files w p = Some f \<longrightarrow> fdata f = Some c \<longrightarrow> readable f \<longrightarrow> writable f \<longrightarrow>
         (\<exists>w'. fix_file w p = (Inr True, w') \<and>
               file_content w' p = Some (Some (rewrite c)) \<and>
               console w' = console w @ [fixed_msg p])))"
proof -
  have 1: "\<not> contains token_stmt (rewrite c)" by (rule rewrite_no_stmt)
  have 2: "rewrite c \<noteq> c" if "contains token_stmt c"
    using 1 that by auto
  have 3: "\<exists>w'. fix_file w p = (Inr True, w') \<and>
               file_content w' p = Some (Some (rewrite c)) \<and>
               console w' = console w @ [fixed_msg p]"
    if "contains token_stmt c" "files w p = Some f" "fdata f = Some c" "readable f" "writable f"
    using fix_file_plain[OF that(2-5) 2[OF that(1)]]
    by (simp add: file_content_def print_def)
  from 1 2 3 show ?thesis by blast
qed

theorem no_token_stmt_left_witness:
  "contains token_stmt guarded_example \<and>
   \<not> contains token_stmt (rewrite guarded_example) \<and>
   rewrite guarded_example \<noteq> guarded_example \<and>
   fst (fix_file (one_file_world billings_path (plain_file guarded_example)) billings_path)
     = Inr True"
  using no_token_stmt_left[of guarded_example
      "one_file_world billings_path (plain_file guarded_example)" billings_path
      "plain_file guarded_example"]
    contains_guarded_example
  by (auto simp: one_file_world_def plain_file_def)

end
